theory Spec2Isabelle
  imports Complex_Main "HOL-Library.Word" "HOL-Library.Char_ord" "HOL-Library.List_Lexorder"
begin

section \<open>Basic types and failures\<close>

text \<open>
  The numeric types of xapian/types.h: document ids, document counts and value slot
  numbers are C++ \<^verbatim>\<open>unsigned\<close>, here 32-bit words whose arithmetic wraps; weights and
  document lengths are \<^verbatim>\<open>double\<close>, of which the code below only ever produces the
  constant 0. \<^verbatim>\<open>std::string\<close> is a byte string; its comparison operators are
  the lexicographic order on bytes, which is the order of \<open>char list\<close> here.
\<close>

type_synonym docid = "32 word"
type_synonym doccount = "32 word"
type_synonym valueno = "32 word"
type_synonym weight = real
type_synonym doclength = real

text \<open>
  What a call can end in other than a return: the two exceptions the sources name, any
  other exception a backend throws (it propagates), and the dereference of a null
  \<^verbatim>\<open>db\<close> pointer, which is undefined behaviour in C++ and is kept as a failure of
  its own.
\<close>

datatype error = DocNotFoundError | AssertionError | DatabaseError | NullPointerDereference

text \<open>
  \<^verbatim>\<open>Assert\<close> and \<^verbatim>\<open>AssertParanoid\<close> are macros of omassert.h, which is not among the
  sources. The build decides what they do, so the build is a parameter: assertions
  compiled out, \<^verbatim>\<open>Assert\<close> active, or \<^verbatim>\<open>AssertParanoid\<close> active as well. An active
  assertion whose condition is false throws; anything else falls through
  (as the \<^verbatim>\<open>return 0\<close> after \<^verbatim>\<open>Assert(false)\<close> in \<^verbatim>\<open>add_document\<close> provides for).
\<close>

datatype assertions = AssertsOff | AssertsOn | AssertsParanoid

definition Assert :: "assertions \<Rightarrow> bool \<Rightarrow> error + unit" where
  "Assert lvl c = (if lvl = AssertsOff then Inr () else if c then Inr () else Inl AssertionError)"

definition AssertParanoid :: "assertions \<Rightarrow> bool \<Rightarrow> error + unit" where
  "AssertParanoid lvl c = (if lvl = AssertsParanoid then (if c then Inr () else Inl AssertionError) else Inr ())"

section \<open>The database backend (common/database.h)\<close>

text \<open>
  A document handle as the value-range cursor uses it: \<^verbatim>\<open>get_value(valueno)\<close>, which
  may throw (a lazily opened handle reads its payload only now).
\<close>

record document_internal =
  get_value :: "valueno \<Rightarrow> error + string"

text \<open>
  Modelled from the spec: emptypostlist.h and the backends' \<^verbatim>\<open>LeafPostList\<close> classes are
  not among the sources. \<open>EmptyPostList\<close> is the "empty cursor (immediately
  terminated)"; a cursor built by a backend is represented by the document ids it
  still has to yield.
\<close>

datatype leaf_post_list = EmptyPostList | LeafPostList "docid list"

text \<open>
  Modelled from the spec: what a leaf cursor yields when drained, and whether it is
  terminated before any advance ("immediately terminated (zero results)").
\<close>

fun leaf_docids :: "leaf_post_list \<Rightarrow> docid list" where
  "leaf_docids EmptyPostList = []"
| "leaf_docids (LeafPostList ds) = ds"

fun leaf_at_end :: "leaf_post_list \<Rightarrow> bool" where
  "leaf_at_end EmptyPostList = True"
| "leaf_at_end (LeafPostList ds) = (ds = [])"

text \<open>
  \<^verbatim>\<open>Database::Internal\<close>: the virtual methods a backend supplies, as far as the code
  below calls them, each with the answer it gives (a document that has vanished is one
  whose open answers \<open>DocNotFoundError\<close>). \<^verbatim>\<open>get_lastdocid\<close> is not declared in the
  database.h among the sources; valuerangepostlist.cc calls it.
\<close>

record database =
  get_doccount :: doccount
  get_lastdocid :: docid
  term_exists :: "string \<Rightarrow> bool"
  do_open_post_list :: "string \<Rightarrow> leaf_post_list"
  open_document :: "docid \<Rightarrow> bool \<Rightarrow> error + document_internal"

definition open_post_list :: "database \<Rightarrow> string \<Rightarrow> leaf_post_list" where
  "open_post_list d tname =
     (if \<not> term_exists d tname then EmptyPostList else do_open_post_list d tname)"

text \<open>
  The default mutation methods, which a writable backend overrides. None of them
  touches the object; the database is passed through so that "nothing changed" can
  be said.
\<close>

definition flush :: "assertions \<Rightarrow> database \<Rightarrow> error + database" where
  "flush lvl d = (case Assert lvl False of Inl e \<Rightarrow> Inl e | Inr _ \<Rightarrow> Inr d)"

definition add_document ::
  "assertions \<Rightarrow> database \<Rightarrow> document_internal \<Rightarrow> error + (docid \<times> database)" where
  "add_document lvl d document =
     (case Assert lvl False of Inl e \<Rightarrow> Inl e | Inr _ \<Rightarrow> Inr (0, d))"

definition delete_document :: "assertions \<Rightarrow> database \<Rightarrow> docid \<Rightarrow> error + database" where
  "delete_document lvl d did = (case Assert lvl False of Inl e \<Rightarrow> Inl e | Inr _ \<Rightarrow> Inr d)"

definition replace_document ::
  "assertions \<Rightarrow> database \<Rightarrow> docid \<Rightarrow> document_internal \<Rightarrow> error + database" where
  "replace_document lvl d did document =
     (case Assert lvl False of Inl e \<Rightarrow> Inl e | Inr _ \<Rightarrow> Inr d)"

section \<open>The value-range cursor (matcher/valuerangepostlist.cc)\<close>

text \<open>
  The members of the class. \<open>db\<close> is a pointer that \<^verbatim>\<open>next\<close> and \<^verbatim>\<open>check\<close> set to
  \<^verbatim>\<open>NULL\<close> at the end of the list. The members \<^verbatim>\<open>begin\<close> and \<^verbatim>\<open>end\<close> are
  \<open>range_begin\<close> and \<open>range_end\<close> here.
\<close>

record ValueRangePostList =
  db :: "database option"
  valno :: valueno
  range_begin :: string
  range_end :: string
  current :: docid
  lastdocid :: docid
  db_size :: doccount

text \<open>
  Modelled from the spec: the constructor is in valuerangepostlist.h, which is not among
  the sources. A new cursor is unstarted (\<open>current = 0\<close>, nothing fetched), and holds
  the database's last document id and size, as the paranoid assertions of the methods
  expect of it.
\<close>

definition new_ValueRangePostList ::
  "database \<Rightarrow> valueno \<Rightarrow> string \<Rightarrow> string \<Rightarrow> ValueRangePostList" where
  "new_ValueRangePostList d slot begin_v end_v =
     \<lparr>db = Some d, valno = slot, range_begin = begin_v, range_end = end_v,
      current = 0, lastdocid = get_lastdocid d, db_size = get_doccount d\<rparr>"

definition get_termfreq_min :: "ValueRangePostList \<Rightarrow> doccount" where
  "get_termfreq_min s = 0"

definition db_size_ok :: "ValueRangePostList \<Rightarrow> bool" where
  "db_size_ok s = (case db s of None \<Rightarrow> True | Some d \<Rightarrow> db_size s = get_doccount d)"

definition get_termfreq_est :: "assertions \<Rightarrow> ValueRangePostList \<Rightarrow> error + doccount" where
  "get_termfreq_est lvl s =
     (case AssertParanoid lvl (db_size_ok s) of Inl e \<Rightarrow> Inl e
      | Inr _ \<Rightarrow> Inr (db_size s div 2))"

definition get_termfreq_max :: "assertions \<Rightarrow> ValueRangePostList \<Rightarrow> error + doccount" where
  "get_termfreq_max lvl s =
     (case AssertParanoid lvl (db_size_ok s) of Inl e \<Rightarrow> Inl e
      | Inr _ \<Rightarrow> Inr (db_size s))"

definition get_maxweight :: "ValueRangePostList \<Rightarrow> weight" where
  "get_maxweight s = 0"

definition get_docid :: "assertions \<Rightarrow> ValueRangePostList \<Rightarrow> error + docid" where
  "get_docid lvl s =
     (case Assert lvl (current s \<noteq> 0) of Inl e \<Rightarrow> Inl e
      | Inr _ \<Rightarrow> (case Assert lvl (db s \<noteq> None) of Inl e \<Rightarrow> Inl e
                 | Inr _ \<Rightarrow> Inr (current s)))"

definition get_weight :: "assertions \<Rightarrow> ValueRangePostList \<Rightarrow> error + weight" where
  "get_weight lvl s = (case Assert lvl (db s \<noteq> None) of Inl e \<Rightarrow> Inl e | Inr _ \<Rightarrow> Inr 0)"

definition get_doclength :: "assertions \<Rightarrow> ValueRangePostList \<Rightarrow> error + doclength" where
  "get_doclength lvl s = (case Assert lvl (db s \<noteq> None) of Inl e \<Rightarrow> Inl e | Inr _ \<Rightarrow> Inr 0)"

definition recalc_maxweight :: "assertions \<Rightarrow> ValueRangePostList \<Rightarrow> error + weight" where
  "recalc_maxweight lvl s = (case Assert lvl (db s \<noteq> None) of Inl e \<Rightarrow> Inl e | Inr _ \<Rightarrow> Inr 0)"

text \<open>
  A \<^verbatim>\<open>PositionList *\<close> is a pointer: \<open>None\<close> is \<^verbatim>\<open>NULL\<close>. A position list is the
  positions it holds.
\<close>

type_synonym position_list = "nat list"

definition read_position_list :: "assertions \<Rightarrow> ValueRangePostList \<Rightarrow> error + position_list option" where
  "read_position_list lvl s =
     (case Assert lvl (db s \<noteq> None) of Inl e \<Rightarrow> Inl e | Inr _ \<Rightarrow> Inr None)"

definition open_position_list :: "assertions \<Rightarrow> ValueRangePostList \<Rightarrow> error + position_list option" where
  "open_position_list lvl s =
     (case Assert lvl (db s \<noteq> None) of Inl e \<Rightarrow> Inl e | Inr _ \<Rightarrow> Inr None)"

text \<open>
  Modelled from the spec: the position iterator that wraps the returned pointer is not
  among the sources. A null position list has no internals to walk, so the positions
  a caller reads off it are none: "an empty position sequence".
\<close>

definition positions_of :: "position_list option \<Rightarrow> nat list" where
  "positions_of p = (case p of None \<Rightarrow> [] | Some ps \<Rightarrow> ps)"

text \<open>
  \<^verbatim>\<open>db->open_document(current, true)\<close> followed by \<^verbatim>\<open>doc->get_value(valno)\<close>: the two
  statements that open the \<^verbatim>\<open>try\<close> blocks of \<^verbatim>\<open>next\<close> and \<^verbatim>\<open>check\<close>.
\<close>

definition read_value :: "ValueRangePostList \<Rightarrow> error + string" where
  "read_value s =
     (case db s of None \<Rightarrow> Inl NullPointerDereference
      | Some d \<Rightarrow>
          (case open_document d (current s) True of Inl e \<Rightarrow> Inl e
           | Inr doc \<Rightarrow> get_value doc (valno s)))"

definition in_range :: "ValueRangePostList \<Rightarrow> string \<Rightarrow> bool" where
  "in_range s v = (range_begin s \<le> v \<and> v \<le> range_end s)"

text \<open>
  The \<^verbatim>\<open>try\<close> block of \<^verbatim>\<open>next\<close> at the current document: \<open>Inr True\<close> when it
  returns from \<^verbatim>\<open>next\<close> (a match; an empty value only after the document was opened
  with \<^verbatim>\<open>lazy = false\<close>), \<open>Inr False\<close> when control leaves the block at its end,
  \<open>Inl e\<close> when \<open>e\<close> is thrown in it.
\<close>

definition next_try :: "ValueRangePostList \<Rightarrow> error + bool" where
  "next_try s =
     (case read_value s of Inl e \<Rightarrow> Inl e
      | Inr v \<Rightarrow>
          if in_range s v then
            (if v = [] then
               (case db s of None \<Rightarrow> Inl NullPointerDereference
                | Some d \<Rightarrow>
                    (case open_document d (current s) False of Inl e \<Rightarrow> Inl e
                     | Inr _ \<Rightarrow> Inr True))
             else Inr True)
          else Inr False)"

text \<open>
  The \<^verbatim>\<open>while\<close> loop of \<^verbatim>\<open>next\<close> with the two statements after it. The condition
  increments \<open>current\<close> as soon as \<open>current < lastdocid\<close> holds; a caught
  \<open>DocNotFoundError\<close> continues the loop, any other exception leaves \<^verbatim>\<open>next\<close>.
\<close>

function next_loop :: "ValueRangePostList \<Rightarrow> error + ValueRangePostList" where
  "next_loop s =
     (if current s < lastdocid s then
        (if current s + 1 \<noteq> 0 then
           (case next_try (s\<lparr>current := current s + 1\<rparr>) of
              Inr m \<Rightarrow>
                if m then Inr (s\<lparr>current := current s + 1\<rparr>)
                else next_loop (s\<lparr>current := current s + 1\<rparr>)
            | Inl e \<Rightarrow>
                if e = DocNotFoundError then next_loop (s\<lparr>current := current s + 1\<rparr>)
                else Inl e)
         else Inr (s\<lparr>current := current s + 1, db := None\<rparr>))
      else Inr (s\<lparr>db := None\<rparr>))"
  by pat_completeness auto
termination
proof (relation "measure (\<lambda>s. unat (lastdocid s) - unat (current s))")
  show "wf (measure (\<lambda>s. unat (lastdocid s) - unat (current s)))"
    by simp
next
  fix s :: ValueRangePostList and m :: bool
  assume "current s < lastdocid s" and "current s + 1 \<noteq> 0"
  then show "(s\<lparr>current := current s + 1\<rparr>, s) \<in> measure (\<lambda>s. unat (lastdocid s) - unat (current s))"
    using unatSuc [of "current s"] by (simp add: add.commute word_less_nat_alt)
next
  fix s :: ValueRangePostList and e :: error
  assume "current s < lastdocid s" and "current s + 1 \<noteq> 0"
  then show "(s\<lparr>current := current s + 1\<rparr>, s) \<in> measure (\<lambda>s. unat (lastdocid s) - unat (current s))"
    using unatSuc [of "current s"] by (simp add: add.commute word_less_nat_alt)
qed

declare next_loop.simps [simp del]

text \<open>
  The paranoid assertion of \<^verbatim>\<open>next\<close> and \<^verbatim>\<open>check\<close>:
  \<^verbatim>\<open>lastdocid == db->get_lastdocid()\<close>. It is evaluated only after \<^verbatim>\<open>Assert(db)\<close>
  has passed in a build with assertions.
\<close>

definition lastdocid_ok :: "ValueRangePostList \<Rightarrow> bool" where
  "lastdocid_ok s = (case db s of None \<Rightarrow> False | Some d \<Rightarrow> lastdocid s = get_lastdocid d)"

text \<open>
  \<^verbatim>\<open>next\<close> (the name is a keyword here, hence \<open>next_pl\<close>). Every method of the class
  that returns a \<^verbatim>\<open>PostList *\<close> returns \<^verbatim>\<open>NULL\<close>, "no replacement"; the result here
  is the cursor after the call, or what was thrown (the cursor a throwing call leaves
  behind is not followed).
\<close>

definition next_pl :: "assertions \<Rightarrow> ValueRangePostList \<Rightarrow> weight \<Rightarrow> error + ValueRangePostList" where
  "next_pl lvl s w =
     (case Assert lvl (db s \<noteq> None) of Inl e \<Rightarrow> Inl e
      | Inr _ \<Rightarrow>
          (case AssertParanoid lvl (lastdocid_ok s) of Inl e \<Rightarrow> Inl e
           | Inr _ \<Rightarrow> next_loop s))"

definition skip_to ::
  "assertions \<Rightarrow> ValueRangePostList \<Rightarrow> docid \<Rightarrow> weight \<Rightarrow> error + ValueRangePostList" where
  "skip_to lvl s did w_min =
     (case Assert lvl (db s \<noteq> None) of Inl e \<Rightarrow> Inl e
      | Inr _ \<Rightarrow>
          if did \<le> current s then Inr s
          else next_pl lvl (s\<lparr>current := did - 1\<rparr>) w_min)"

text \<open>
  \<^verbatim>\<open>check\<close>: the cursor after the call and the value left in \<^verbatim>\<open>valid\<close>. The
  \<^verbatim>\<open>try\<close> block assigns \<open>current\<close> first, reads the value and tests the range; it
  does not open the document with \<^verbatim>\<open>lazy = false\<close>.
\<close>

definition check ::
  "assertions \<Rightarrow> ValueRangePostList \<Rightarrow> docid \<Rightarrow> weight \<Rightarrow> error + (ValueRangePostList \<times> bool)" where
  "check lvl s did w =
     (case Assert lvl (db s \<noteq> None) of Inl e \<Rightarrow> Inl e
      | Inr _ \<Rightarrow>
          if did \<le> current s then Inr (s, True)
          else
            (case AssertParanoid lvl (lastdocid_ok s) of Inl e \<Rightarrow> Inl e
             | Inr _ \<Rightarrow>
                 if lastdocid s < did then Inr (s\<lparr>db := None\<rparr>, True)
                 else
                   (case read_value (s\<lparr>current := did\<rparr>) of
                      Inr v \<Rightarrow>
                        if in_range s v then Inr (s\<lparr>current := did\<rparr>, True)
                        else Inr (s\<lparr>current := did\<rparr>, False)
                    | Inl e \<Rightarrow>
                        if e = DocNotFoundError then Inr (s\<lparr>current := did\<rparr>, False)
                        else Inl e)))"

definition at_end :: "ValueRangePostList \<Rightarrow> bool" where
  "at_end s = (db s = None)"

text \<open>
  What \<^verbatim>\<open>next\<close> decides about a document id \<open>c\<close>: its \<^verbatim>\<open>try\<close> block returns (the
  document matches), or the loop goes on to the next id (the value is out of range, or
  the document is not found).
\<close>

definition doc_matches :: "ValueRangePostList \<Rightarrow> docid \<Rightarrow> bool" where
  "doc_matches s c = (next_try (s\<lparr>current := c\<rparr>) = Inr True)"

definition doc_not_found :: "ValueRangePostList \<Rightarrow> docid \<Rightarrow> bool" where
  "doc_not_found s c = (next_try (s\<lparr>current := c\<rparr>) = Inl DocNotFoundError)"

definition doc_passed_over :: "ValueRangePostList \<Rightarrow> docid \<Rightarrow> bool" where
  "doc_passed_over s c = (next_try (s\<lparr>current := c\<rparr>) = Inr False \<or> doc_not_found s c)"

text \<open>
  The two ways the loop of \<^verbatim>\<open>next\<close> can return: at the first document id after
  \<open>current\<close> that matches, every id before it passed over; or past the last id,
  every remaining id passed over and \<open>db\<close> set to \<^verbatim>\<open>NULL\<close>.
\<close>

definition loop_found :: "ValueRangePostList \<Rightarrow> ValueRangePostList \<Rightarrow> bool" where
  "loop_found s s' =
     (\<exists>c. s' = s\<lparr>current := c\<rparr> \<and> current s < c \<and> c \<le> lastdocid s \<and> doc_matches s c \<and>
          (\<forall>k. current s < k \<and> k < c \<longrightarrow> doc_passed_over s k))"

definition loop_ended :: "ValueRangePostList \<Rightarrow> ValueRangePostList \<Rightarrow> bool" where
  "loop_ended s s' =
     (s' = s\<lparr>current := (if current s < lastdocid s then lastdocid s else current s), db := None\<rparr>
      \<and> (\<forall>k. current s < k \<and> k \<le> lastdocid s \<longrightarrow> doc_passed_over s k))"

text \<open>
  Whether a document can be opened with \<^verbatim>\<open>lazy = false\<close>, the existence test of
  \<^verbatim>\<open>next\<close> for an empty value.
\<close>

definition doc_exists :: "ValueRangePostList \<Rightarrow> docid \<Rightarrow> bool" where
  "doc_exists s c =
     (case db s of None \<Rightarrow> False
      | Some d \<Rightarrow> (case open_document d c False of Inl _ \<Rightarrow> False | Inr _ \<Rightarrow> True))"

text \<open>
  The life of a cursor as its caller drives it: a sequence of advancing calls, stopped
  by the first one that throws.
\<close>

datatype advance = Next weight | SkipTo docid weight | Check docid weight

fun advance_by :: "assertions \<Rightarrow> ValueRangePostList \<Rightarrow> advance \<Rightarrow> error + ValueRangePostList" where
  "advance_by lvl s (Next w) = next_pl lvl s w"
| "advance_by lvl s (SkipTo did w) = skip_to lvl s did w"
| "advance_by lvl s (Check did w) =
     (case check lvl s did w of Inl e \<Rightarrow> Inl e | Inr (s', valid) \<Rightarrow> Inr s')"

fun advance_all :: "assertions \<Rightarrow> ValueRangePostList \<Rightarrow> advance list \<Rightarrow> error + ValueRangePostList" where
  "advance_all lvl s [] = Inr s"
| "advance_all lvl s (a # as) =
     (case advance_by lvl s a of Inl e \<Rightarrow> Inl e | Inr s' \<Rightarrow> advance_all lvl s' as)"

text \<open>
  The caller's loop over a cursor: call \<^verbatim>\<open>next\<close>, stop when \<^verbatim>\<open>at_end\<close>, otherwise
  take \<^verbatim>\<open>get_docid\<close> and go on, for at most \<open>n\<close> calls of \<^verbatim>\<open>next\<close>. The result is
  the document ids taken and the cursor as it was left.
\<close>

fun next_docids ::
  "nat \<Rightarrow> assertions \<Rightarrow> ValueRangePostList \<Rightarrow> error + (docid list \<times> ValueRangePostList)" where
  "next_docids 0 lvl s = Inr ([], s)"
| "next_docids (Suc n) lvl s =
     (case next_pl lvl s 0 of Inl e \<Rightarrow> Inl e
      | Inr s' \<Rightarrow>
          if at_end s' then Inr ([], s')
          else
            (case get_docid lvl s' of Inl e \<Rightarrow> Inl e
             | Inr d \<Rightarrow>
                 (case next_docids n lvl s' of Inl e \<Rightarrow> Inl e
                  | Inr (ds, s'') \<Rightarrow> Inr (d # ds, s''))))"

section \<open>Backends and cursors for the scenarios\<close>

text \<open>
  A backend over a table of stored documents (each a function from slot to value; an
  unset slot reads as the empty string). A document id outside the table is not found:
  a backend that ignores the \<^verbatim>\<open>lazy\<close> flag throws on every open, one that honours it
  hands out a handle whose values all read as empty and throws only when the document
  is opened with \<^verbatim>\<open>lazy = false\<close>. These are the two behaviours the comment in
  \<^verbatim>\<open>next\<close> describes.
\<close>

definition table_backend ::
  "bool \<Rightarrow> doccount \<Rightarrow> docid \<Rightarrow> (docid \<Rightarrow> (valueno \<Rightarrow> string) option) \<Rightarrow> database" where
  "table_backend honours_lazy n lastid docs =
     \<lparr>get_doccount = n, get_lastdocid = lastid,
      term_exists = (\<lambda>t. t = ''cat'' \<or> t = ''stale''),
      do_open_post_list = (\<lambda>t. if t = ''cat'' then LeafPostList [2, 3] else LeafPostList []),
      open_document = (\<lambda>did lazy.
        case docs did of
          Some vals \<Rightarrow> Inr \<lparr>get_value = (\<lambda>slot. Inr (vals slot))\<rparr>
        | None \<Rightarrow>
            if lazy \<and> honours_lazy then Inr \<lparr>get_value = (\<lambda>slot. Inr [])\<rparr>
            else Inl DocNotFoundError)\<rparr>"

definition slot3 :: "string \<Rightarrow> (valueno \<Rightarrow> string) option" where
  "slot3 v = Some (\<lambda>slot. if slot = 3 then v else [])"

text \<open>Five documents whose slot-3 values are "050", "150", "200", "250" and "".\<close>

definition five_docs :: "docid \<Rightarrow> (valueno \<Rightarrow> string) option" where
  "five_docs did =
     (if did = 1 then slot3 ''050'' else if did = 2 then slot3 ''150''
      else if did = 3 then slot3 ''200'' else if did = 4 then slot3 ''250''
      else if did = 5 then slot3 [] else None)"

definition five_db :: database where
  "five_db = table_backend False 5 5 five_docs"

text \<open>Three document ids of which the second has been deleted.\<close>

definition gap_docs :: "docid \<Rightarrow> (valueno \<Rightarrow> string) option" where
  "gap_docs did =
     (if did = 1 then slot3 ''150'' else if did = 3 then slot3 ''180'' else None)"

definition gap_db :: "bool \<Rightarrow> database" where
  "gap_db honours_lazy = table_backend honours_lazy 2 3 gap_docs"

text \<open>A document to add or replace with: one without values.\<close>

definition no_values :: document_internal where
  "no_values = \<lparr>get_value = (\<lambda>slot. Inr [])\<rparr>"

text \<open>The cursor of the five-document scenario once it has run off the end.\<close>

definition five_done :: ValueRangePostList where
  "five_done = \<lparr>db = None, valno = 3, range_begin = ''100'', range_end = ''200'',
     current = 5, lastdocid = 5, db_size = 5\<rparr>"

section \<open>Properties\<close>

lemma Assert_False: "Assert lvl False = (if lvl = AssertsOff then Inr () else Inl AssertionError)"
  by (simp add: Assert_def)

subsection \<open>The loop of next\<close>


lemma word_succ_split:
  fixes c k :: "32 word"
  shows "c + 1 \<noteq> 0 \<Longrightarrow> c < k \<Longrightarrow> k \<noteq> c + 1 \<Longrightarrow> c + 1 < k"
  using unatSuc [of c] by (simp add: add.commute word_less_nat_alt word_unat_eq_iff)

lemma word_succ_none_between:
  fixes c k :: "32 word"
  shows "c + 1 \<noteq> 0 \<Longrightarrow> c < k \<Longrightarrow> k < c + 1 \<Longrightarrow> False"
  using unatSuc [of c] by (simp add: add.commute word_less_nat_alt)

lemma word_succ_le:
  fixes c k :: "32 word"
  assumes "c < k"
  shows "c + 1 \<noteq> 0" and "c < c + 1" and "c + 1 \<le> k"
proof -
  show nz: "c + 1 \<noteq> 0"
  proof
    assume "c + 1 = 0"
    then have "c = - 1" by (simp add: eq_neg_iff_add_eq_0)
    with assms show False by simp
  qed
  show "c < c + 1" using nz unatSuc [of c] by (simp add: add.commute word_less_nat_alt)
  show "c + 1 \<le> k" using assms by (rule inc_le)
qed

lemma doc_fields [simp]:
  "doc_matches (s\<lparr>current := a\<rparr>) c = doc_matches s c"
  "doc_passed_over (s\<lparr>current := a\<rparr>) c = doc_passed_over s c"
  "doc_not_found (s\<lparr>current := a\<rparr>) c = doc_not_found s c"
  by (simp_all add: doc_matches_def doc_passed_over_def doc_not_found_def)

lemma next_loop_stop:
  "\<not> current s < lastdocid s \<Longrightarrow> next_loop s = Inr (s\<lparr>db := None\<rparr>)"
  by (simp add: next_loop.simps [of s])

lemma next_loop_match:
  "current s < lastdocid s \<Longrightarrow> doc_matches s (current s + 1) \<Longrightarrow>
   next_loop s = Inr (s\<lparr>current := current s + 1\<rparr>)"
  using word_succ_le(1) [of "current s" "lastdocid s"]
  by (simp add: next_loop.simps [of s] doc_matches_def)

lemma next_loop_pass:
  "current s < lastdocid s \<Longrightarrow> doc_passed_over s (current s + 1) \<Longrightarrow>
   next_loop s = next_loop (s\<lparr>current := current s + 1\<rparr>)"
  using word_succ_le(1) [of "current s" "lastdocid s"]
  by (auto simp: next_loop.simps [of s] doc_passed_over_def doc_not_found_def)

lemma next_loop_throw:
  "current s < lastdocid s \<Longrightarrow> next_try (s\<lparr>current := current s + 1\<rparr>) = Inl e \<Longrightarrow>
   e \<noteq> DocNotFoundError \<Longrightarrow> next_loop s = Inl e"
  using word_succ_le(1) [of "current s" "lastdocid s"]
  by (simp add: next_loop.simps [of s])

lemma next_try_cases:
  "doc_matches s c \<or> doc_passed_over s c \<or> (\<exists>e. next_try (s\<lparr>current := c\<rparr>) = Inl e \<and> e \<noteq> DocNotFoundError)"
  by (cases "next_try (s\<lparr>current := c\<rparr>)")
     (auto simp: doc_matches_def doc_passed_over_def doc_not_found_def)


lemma loop_found_first:
  assumes "current s < lastdocid s" and "doc_matches s (current s + 1)"
  shows "loop_found s (s\<lparr>current := current s + 1\<rparr>)"
proof -
  note w = word_succ_le [OF assms(1)]
  have "\<forall>k. current s < k \<and> k < current s + 1 \<longrightarrow> doc_passed_over s k"
    using word_succ_none_between [OF w(1)] by blast
  with assms(2) w(2,3) show ?thesis
    unfolding loop_found_def by blast
qed

lemma loop_found_step:
  assumes "current s < lastdocid s" and "doc_passed_over s (current s + 1)"
    and "loop_found (s\<lparr>current := current s + 1\<rparr>) s'"
  shows "loop_found s s'"
proof -
  note w = word_succ_le [OF assms(1)]
  from assms(3) obtain c where c: "s' = s\<lparr>current := c\<rparr>" "current s + 1 < c" "c \<le> lastdocid s"
    "doc_matches s c" "\<forall>k. current s + 1 < k \<and> k < c \<longrightarrow> doc_passed_over s k"
    unfolding loop_found_def by auto
  have "current s < c" using w(2) c(2) by simp
  moreover have "\<forall>k. current s < k \<and> k < c \<longrightarrow> doc_passed_over s k"
  proof (intro allI impI)
    fix k assume k: "current s < k \<and> k < c"
    show "doc_passed_over s k"
    proof (cases "k = current s + 1")
      case True then show ?thesis using assms(2) by simp
    next
      case False
      then have "current s + 1 < k" using word_succ_split [OF w(1)] k by blast
      then show ?thesis using c(5) k by blast
    qed
  qed
  ultimately show ?thesis unfolding loop_found_def using c(1,3,4) by blast
qed

lemma loop_ended_step:
  assumes "current s < lastdocid s" and "doc_passed_over s (current s + 1)"
    and "loop_ended (s\<lparr>current := current s + 1\<rparr>) s'"
  shows "loop_ended s s'"
proof -
  note w = word_succ_le [OF assms(1)]
  have "current s + 1 < lastdocid s \<or> current s + 1 = lastdocid s"
    using w(3) by auto
  moreover from assms(3)
  have "s' = s\<lparr>current := (if current s + 1 < lastdocid s then lastdocid s else current s + 1),
                 db := None\<rparr>"
    unfolding loop_ended_def by simp
  ultimately have s': "s' = s\<lparr>current := lastdocid s, db := None\<rparr>"
    by auto
  from assms(3) have rest: "\<forall>k. current s + 1 < k \<and> k \<le> lastdocid s \<longrightarrow> doc_passed_over s k"
    unfolding loop_ended_def by simp
  have "\<forall>k. current s < k \<and> k \<le> lastdocid s \<longrightarrow> doc_passed_over s k"
  proof (intro allI impI)
    fix k assume k: "current s < k \<and> k \<le> lastdocid s"
    show "doc_passed_over s k"
    proof (cases "k = current s + 1")
      case True then show ?thesis using assms(2) by simp
    next
      case False
      then have "current s + 1 < k" using word_succ_split [OF w(1)] k by blast
      then show ?thesis using rest k by blast
    qed
  qed
  then show ?thesis unfolding loop_ended_def using s' assms(1) by simp
qed

lemma loop_ended_now:
  "\<not> current s < lastdocid s \<Longrightarrow> loop_ended s (s\<lparr>db := None\<rparr>)"
  unfolding loop_ended_def by auto

lemma next_loop_Inr:
  "next_loop s = Inr s' \<Longrightarrow> loop_found s s' \<or> loop_ended s s'"
proof (induction "unat (lastdocid s) - unat (current s)" arbitrary: s rule: less_induct)
  case less
  show ?case
  proof (cases "current s < lastdocid s")
    case False
    then show ?thesis using less.prems loop_ended_now [of s] by (simp add: next_loop_stop)
  next
    case True
    note w = word_succ_le [OF True]
    let ?s1 = "s\<lparr>current := current s + 1\<rparr>"
    consider (m) "doc_matches s (current s + 1)" | (p) "doc_passed_over s (current s + 1)"
      | (t) e where "next_try ?s1 = Inl e" "e \<noteq> DocNotFoundError"
      using next_try_cases [of s "current s + 1"] by blast
    then show ?thesis
    proof cases
      case m
      then show ?thesis using less.prems True loop_found_first [of s] by (simp add: next_loop_match)
    next
      case p
      have dec: "unat (lastdocid ?s1) - unat (current ?s1) < unat (lastdocid s) - unat (current s)"
        using True w(1) unatSuc [of "current s"] by (simp add: add.commute word_less_nat_alt)
      have "next_loop ?s1 = Inr s'" using less.prems next_loop_pass [OF True p] by simp
      from less.hyps [OF dec this] show ?thesis
        using loop_found_step [OF True p] loop_ended_step [OF True p] by blast
    next
      case t
      then show ?thesis using less.prems next_loop_throw [OF True t] by simp
    qed
  qed
qed

lemma next_loop_no_not_found: "next_loop s \<noteq> Inl DocNotFoundError"
proof (induction "unat (lastdocid s) - unat (current s)" arbitrary: s rule: less_induct)
  case less
  show ?case
  proof (cases "current s < lastdocid s")
    case False
    then show ?thesis by (simp add: next_loop_stop)
  next
    case True
    note w = word_succ_le [OF True]
    let ?s1 = "s\<lparr>current := current s + 1\<rparr>"
    consider (m) "doc_matches s (current s + 1)" | (p) "doc_passed_over s (current s + 1)"
      | (t) e where "next_try ?s1 = Inl e" "e \<noteq> DocNotFoundError"
      using next_try_cases [of s "current s + 1"] by blast
    then show ?thesis
    proof cases
      case m
      then show ?thesis using True by (simp add: next_loop_match)
    next
      case p
      have dec: "unat (lastdocid ?s1) - unat (current ?s1) < unat (lastdocid s) - unat (current s)"
        using True w(1) unatSuc [of "current s"] by (simp add: add.commute word_less_nat_alt)
      from less.hyps [OF dec] show ?thesis
        using next_loop_pass [OF True p] by simp
    next
      case t
      then show ?thesis using next_loop_throw [OF True t] by simp
    qed
  qed
qed



subsection \<open>Opening the posting list of an absent term\<close>

text \<open>
  C1. For a term \<open>t\<close> the backend reports as absent, \<open>open_post_list\<close> does not reach
  the backend's own constructor: it returns the empty cursor, which is terminated from
  the start and yields no document. A term \<open>t'\<close> whose true posting list is empty
  gives the same output, whether the backend reports it as present or not.
\<close>

theorem open_post_list_absent_term:
  "\<not> term_exists d t \<Longrightarrow>
     open_post_list d t = EmptyPostList \<and> leaf_at_end (open_post_list d t) \<and>
     leaf_docids (open_post_list d t) = [] \<and>
     (leaf_docids (do_open_post_list d t') = [] \<longrightarrow>
        leaf_docids (open_post_list d t') = leaf_docids (open_post_list d t))"
  by (simp add: open_post_list_def)

text \<open>The term "dog" is absent; "stale" is reported present but has no postings.\<close>

theorem open_post_list_absent_term_witness:
  "\<not> term_exists five_db ''dog'' \<and> open_post_list five_db ''dog'' = EmptyPostList \<and>
   term_exists five_db ''stale'' \<and>
   leaf_docids (open_post_list five_db ''stale'') = leaf_docids (open_post_list five_db ''dog'')"
  using open_post_list_absent_term [of five_db "''dog''" "''stale''"]
  by (simp add: five_db_def table_backend_def)

subsection \<open>The default mutation methods\<close>

text \<open>
  C3, as amended. In a build where \<^verbatim>\<open>Assert\<close> is active, each of the default
  \<open>flush\<close>, \<open>add_document\<close>, \<open>delete_document\<close> and \<open>replace_document\<close> is rejected
  with the assertion failure. Where assertions are compiled out the same calls return
  with the database as it was, \<open>add_document\<close> with document id 0.
\<close>

theorem default_mutations:
  "(lvl \<noteq> AssertsOff \<longrightarrow>
      flush lvl d = Inl AssertionError \<and> add_document lvl d doc = Inl AssertionError \<and>
      delete_document lvl d did = Inl AssertionError \<and>
      replace_document lvl d did doc = Inl AssertionError) \<and>
   (lvl = AssertsOff \<longrightarrow>
      flush lvl d = Inr d \<and> add_document lvl d doc = Inr (0, d) \<and>
      delete_document lvl d did = Inr d \<and> replace_document lvl d did doc = Inr d)"
  by (simp add: flush_def add_document_def delete_document_def replace_document_def Assert_False)

text \<open>With assertions active, on the five-document backend.\<close>

theorem default_mutations_witness:
  "flush AssertsOn five_db = Inl AssertionError \<and>
   add_document AssertsOn five_db no_values = Inl AssertionError \<and>
   delete_document AssertsOn five_db 1 = Inl AssertionError \<and>
   replace_document AssertsOn five_db 1 no_values = Inl AssertionError"
  using default_mutations [of AssertsOn five_db no_values 1] by simp

text \<open>
  C3 as stated fails in a build without assertions: every default mutation completes
  and changes nothing.
\<close>

theorem default_mutations_counterexample:
  "flush AssertsOff five_db = Inr five_db \<and>
   add_document AssertsOff five_db no_values = Inr (0, five_db) \<and>
   delete_document AssertsOff five_db 1 = Inr five_db \<and>
   replace_document AssertsOff five_db 1 no_values = Inr five_db"
  by (simp add: flush_def add_document_def delete_document_def replace_document_def Assert_def)

subsection \<open>Position lists\<close>

text \<open>
  C9. On a cursor that is not terminated, \<open>read_position_list\<close> and
  \<open>open_position_list\<close> return normally, with the null position list, which holds no
  position.
\<close>

theorem position_lists_empty:
  "db s \<noteq> None \<Longrightarrow>
     read_position_list lvl s = Inr None \<and> open_position_list lvl s = Inr None \<and>
     positions_of None = []"
  by (simp add: read_position_list_def open_position_list_def positions_of_def Assert_def)

text \<open>On the fresh cursor of the five-document scenario.\<close>

theorem position_lists_empty_witness:
  "db (new_ValueRangePostList five_db 3 ''100'' ''200'') \<noteq> None \<and>
   read_position_list AssertsOn (new_ValueRangePostList five_db 3 ''100'' ''200'') = Inr None \<and>
   open_position_list AssertsOn (new_ValueRangePostList five_db 3 ''100'' ''200'') = Inr None"
  using position_lists_empty [of "new_ValueRangePostList five_db 3 ''100'' ''200''" AssertsOn]
  by (simp add: new_ValueRangePostList_def)

subsection \<open>Weights\<close>

text \<open>
  C10, as amended. \<open>get_maxweight\<close> is 0 in every state. \<open>get_weight\<close> and
  \<open>recalc_maxweight\<close> return 0 on every cursor that is not terminated, and on every
  cursor when assertions are compiled out; on a terminated cursor with assertions
  active they fail \<^verbatim>\<open>Assert(db)\<close> instead. The weight passed to \<open>next_pl\<close> and
  \<open>skip_to\<close> does not influence their result.
\<close>

theorem weights_zero:
  "get_maxweight s = 0 \<and>
   (db s \<noteq> None \<or> lvl = AssertsOff \<longrightarrow>
      get_weight lvl s = Inr 0 \<and> recalc_maxweight lvl s = Inr 0) \<and>
   (db s = None \<and> lvl \<noteq> AssertsOff \<longrightarrow>
      get_weight lvl s = Inl AssertionError \<and> recalc_maxweight lvl s = Inl AssertionError) \<and>
   next_pl lvl s w = next_pl lvl s w' \<and> skip_to lvl s did w = skip_to lvl s did w'"
  by (auto simp: get_maxweight_def get_weight_def recalc_maxweight_def next_pl_def skip_to_def Assert_def)

text \<open>On the fresh cursor of the five-document scenario, with two different weights.\<close>

theorem weights_zero_witness:
  "get_maxweight (new_ValueRangePostList five_db 3 ''100'' ''200'') = 0 \<and>
   get_weight AssertsOn (new_ValueRangePostList five_db 3 ''100'' ''200'') = Inr 0 \<and>
   recalc_maxweight AssertsOn (new_ValueRangePostList five_db 3 ''100'' ''200'') = Inr 0 \<and>
   next_pl AssertsOn (new_ValueRangePostList five_db 3 ''100'' ''200'') 0
     = next_pl AssertsOn (new_ValueRangePostList five_db 3 ''100'' ''200'') 7"
  using weights_zero [of "new_ValueRangePostList five_db 3 ''100'' ''200''" AssertsOn 0 7 1]
  by (simp add: new_ValueRangePostList_def)

text \<open>
  C10 as stated fails on a terminated cursor in a build with assertions: the two
  methods that begin with \<^verbatim>\<open>Assert(db)\<close> throw.
\<close>

theorem weights_zero_counterexample:
  "at_end five_done \<and> get_weight AssertsOn five_done = Inl AssertionError \<and>
   recalc_maxweight AssertsOn five_done = Inl AssertionError"
  by (simp add: at_end_def five_done_def get_weight_def recalc_maxweight_def Assert_def)

subsection \<open>The five-document scenario\<close>

lemmas cursor_eval = next_pl_def skip_to_def check_def Assert_def AssertParanoid_def
  lastdocid_ok_def next_try_def read_value_def in_range_def at_end_def get_docid_def
  new_ValueRangePostList_def table_backend_def slot3_def

lemma five_step1:
  "next_pl lvl (new_ValueRangePostList five_db 3 ''100'' ''200'') w
     = Inr ((new_ValueRangePostList five_db 3 ''100'' ''200'')\<lparr>current := 2\<rparr>)"
  by (simp add: cursor_eval five_db_def five_docs_def next_loop.simps)

lemma five_step2:
  "next_pl lvl ((new_ValueRangePostList five_db 3 ''100'' ''200'')\<lparr>current := 2\<rparr>) w
     = Inr ((new_ValueRangePostList five_db 3 ''100'' ''200'')\<lparr>current := 3\<rparr>)"
  by (simp add: cursor_eval five_db_def five_docs_def next_loop.simps)

lemma five_step3:
  "next_pl lvl ((new_ValueRangePostList five_db 3 ''100'' ''200'')\<lparr>current := 3\<rparr>) w
     = Inr five_done"
  by (simp add: cursor_eval five_db_def five_docs_def next_loop.simps five_done_def)


text \<open>
  C7. The cursor over slot 3 with range ["100", "200"] on the five documents with values
  "050", "150", "200", "250" and "": the caller's loop takes the document ids 2 and 3, in
  that order, whatever number of calls of \<^verbatim>\<open>next\<close> beyond three it allows, and
  leaves the cursor terminated with \<open>current\<close> at document id 5. The three calls
  of \<^verbatim>\<open>next\<close> are also given one by one, for any weights.
\<close>

theorem five_documents_scenario:
  "next_docids (3 + n) lvl (new_ValueRangePostList five_db 3 ''100'' ''200'') = Inr ([2, 3], five_done) \<and>
   at_end five_done \<and> current five_done = 5 \<and>
   next_pl lvl (new_ValueRangePostList five_db 3 ''100'' ''200'') w1
     = Inr ((new_ValueRangePostList five_db 3 ''100'' ''200'')\<lparr>current := 2\<rparr>) \<and>
   next_pl lvl ((new_ValueRangePostList five_db 3 ''100'' ''200'')\<lparr>current := 2\<rparr>) w2
     = Inr ((new_ValueRangePostList five_db 3 ''100'' ''200'')\<lparr>current := 3\<rparr>) \<and>
   next_pl lvl ((new_ValueRangePostList five_db 3 ''100'' ''200'')\<lparr>current := 3\<rparr>) w3
     = Inr five_done"
proof -
  let ?s0 = "new_ValueRangePostList five_db 3 ''100'' ''200''"
  have n: "3 + n = Suc (Suc (Suc n))" by simp
  have e: "at_end five_done" "current five_done = 5"
    by (simp_all add: at_end_def five_done_def)
  have a: "\<not> at_end (?s0\<lparr>current := 2\<rparr>)" "\<not> at_end (?s0\<lparr>current := 3\<rparr>)"
    by (simp_all add: at_end_def new_ValueRangePostList_def)
  have g: "get_docid lvl (?s0\<lparr>current := 2\<rparr>) = Inr 2" "get_docid lvl (?s0\<lparr>current := 3\<rparr>) = Inr 3"
    by (simp_all add: get_docid_def Assert_def new_ValueRangePostList_def)
  have "next_docids (3 + n) lvl ?s0 = Inr ([2, 3], five_done)"
    unfolding n by (simp add: five_step1 five_step2 five_step3 e a g)
  then show ?thesis
    using e by (simp add: five_step1 five_step2 five_step3)
qed

text \<open>
  With paranoid assertions and exactly three calls, and without assertions and eight.
\<close>

theorem five_documents_scenario_witness:
  "next_docids 3 AssertsParanoid (new_ValueRangePostList five_db 3 ''100'' ''200'') = Inr ([2, 3], five_done) \<and>
   next_docids 8 AssertsOff (new_ValueRangePostList five_db 3 ''100'' ''200'') = Inr ([2, 3], five_done)"
  using five_documents_scenario [of 0 AssertsParanoid 0 0 0]
    five_documents_scenario [of 5 AssertsOff 0 0 0]
  by simp


subsection \<open>Documents that are not found\<close>

lemma lastdocid_ok_current [simp]: "lastdocid_ok (s\<lparr>current := c\<rparr>) = lastdocid_ok s"
  by (simp add: lastdocid_ok_def split: option.split)

lemma next_pl_Inr:
  "next_pl lvl s w = Inr s' \<Longrightarrow> loop_found s s' \<or> loop_ended s s'"
  by (auto simp: next_pl_def Assert_def AssertParanoid_def split: if_splits dest: next_loop_Inr)

lemma next_pl_no_not_found: "next_pl lvl s w \<noteq> Inl DocNotFoundError"
  by (simp add: next_pl_def Assert_def AssertParanoid_def next_loop_no_not_found)

lemma skip_to_no_not_found: "skip_to lvl s did w \<noteq> Inl DocNotFoundError"
  by (simp add: skip_to_def Assert_def next_pl_no_not_found)

lemma check_no_not_found: "check lvl s did w \<noteq> Inl DocNotFoundError"
  by (simp add: check_def Assert_def AssertParanoid_def split: sum.split)

lemma passed_over_not_matches: "doc_passed_over s k \<Longrightarrow> \<not> doc_matches s k"
  by (auto simp: doc_passed_over_def doc_matches_def doc_not_found_def)

lemma doc_matches_db: "doc_matches s k \<Longrightarrow> db s \<noteq> None"
  by (cases "db s") (simp_all add: doc_matches_def next_try_def read_value_def)

lemma next_pl_end_no_match:
  assumes "next_pl lvl s w = Inr s'" and "at_end s'" and "current s < k" and "k \<le> lastdocid s"
  shows "\<not> doc_matches s k"
proof -
  from next_pl_Inr [OF assms(1)] show ?thesis
  proof
    assume "loop_found s s'"
    then have "db s' = db s" by (auto simp: loop_found_def)
    with assms(2) have "db s = None" by (simp add: at_end_def)
    then show ?thesis using doc_matches_db by blast
  next
    assume "loop_ended s s'"
    then have "doc_passed_over s k" using assms(3,4) by (simp add: loop_ended_def)
    then show ?thesis by (rule passed_over_not_matches)
  qed
qed

lemma next_pl_skip_not_found:
  assumes "current s < lastdocid s" and "doc_not_found s (current s + 1)"
  shows "next_pl lvl s w = next_pl lvl (s\<lparr>current := current s + 1\<rparr>) w"
proof -
  have "doc_passed_over s (current s + 1)" using assms(2) by (simp add: doc_passed_over_def)
  from next_loop_pass [OF assms(1) this] show ?thesis
    by (simp add: next_pl_def split: sum.split)
qed

lemma check_not_found:
  assumes "lvl = AssertsParanoid \<longrightarrow> lastdocid_ok s" and "current s < did" and "did \<le> lastdocid s"
    and "read_value (s\<lparr>current := did\<rparr>) = Inl DocNotFoundError"
  shows "check lvl s did w = Inr (s\<lparr>current := did\<rparr>, False)" and "\<not> at_end (s\<lparr>current := did\<rparr>)"
proof -
  from assms(4) have d: "db s \<noteq> None"
    by (cases "db s") (simp_all add: read_value_def)
  then show "\<not> at_end (s\<lparr>current := did\<rparr>)" by (simp add: at_end_def)
  from assms(2) have "\<not> did \<le> current s" by simp
  moreover from assms(3) have "\<not> lastdocid s < did" by simp
  ultimately show "check lvl s did w = Inr (s\<lparr>current := did\<rparr>, False)"
    using d assms(1,4) by (simp add: check_def Assert_def AssertParanoid_def)
qed

text \<open>
  C6. A document whose probe in \<^verbatim>\<open>next\<close> ends in \<open>DocNotFoundError\<close> is skipped:
  \<^verbatim>\<open>next\<close> does what it does from the following document id on. No advancing
  method ever ends in \<open>DocNotFoundError\<close>; \<^verbatim>\<open>next\<close> leaves the cursor terminated
  only when no document id \<open>k\<close> after \<open>current\<close> up to the last one matches; and
  \<^verbatim>\<open>check\<close> at a document that is not found returns, with \<^verbatim>\<open>valid\<close> false and the
  cursor not terminated.
\<close>

theorem vanished_document_skipped:
  "(current s < lastdocid s \<and> doc_not_found s (current s + 1) \<longrightarrow>
      next_pl lvl s w = next_pl lvl (s\<lparr>current := current s + 1\<rparr>) w) \<and>
   next_pl lvl s w \<noteq> Inl DocNotFoundError \<and>
   skip_to lvl s did w \<noteq> Inl DocNotFoundError \<and>
   check lvl s did w \<noteq> Inl DocNotFoundError \<and>
   (next_pl lvl s w = Inr s' \<and> at_end s' \<and> current s < k \<and> k \<le> lastdocid s \<longrightarrow>
      \<not> doc_matches s k) \<and>
   ((lvl = AssertsParanoid \<longrightarrow> lastdocid_ok s) \<and> current s < did \<and> did \<le> lastdocid s \<and>
    read_value (s\<lparr>current := did\<rparr>) = Inl DocNotFoundError \<longrightarrow>
      check lvl s did w = Inr (s\<lparr>current := did\<rparr>, False) \<and> \<not> at_end (s\<lparr>current := did\<rparr>))"
proof (intro conjI impI)
  show "next_pl lvl s w \<noteq> Inl DocNotFoundError" by (rule next_pl_no_not_found)
  show "skip_to lvl s did w \<noteq> Inl DocNotFoundError" by (rule skip_to_no_not_found)
  show "check lvl s did w \<noteq> Inl DocNotFoundError" by (rule check_no_not_found)
next
  assume "current s < lastdocid s \<and> doc_not_found s (current s + 1)"
  then show "next_pl lvl s w = next_pl lvl (s\<lparr>current := current s + 1\<rparr>) w"
    by (simp add: next_pl_skip_not_found)
next
  assume "next_pl lvl s w = Inr s' \<and> at_end s' \<and> current s < k \<and> k \<le> lastdocid s"
  then show "\<not> doc_matches s k"
    using next_pl_end_no_match by blast
next
  assume a: "(lvl = AssertsParanoid \<longrightarrow> lastdocid_ok s) \<and> current s < did \<and> did \<le> lastdocid s \<and>
    read_value (s\<lparr>current := did\<rparr>) = Inl DocNotFoundError"
  then show "check lvl s did w = Inr (s\<lparr>current := did\<rparr>, False)"
    using check_not_found(1) by blast
  from a show "\<not> at_end (s\<lparr>current := did\<rparr>)"
    using check_not_found(2) by blast
qed

text \<open>
  Document 2 of three is deleted. On a backend that throws on every open of it,
  \<^verbatim>\<open>next\<close> from document 1 arrives at document 3 and \<^verbatim>\<open>check\<close> of document 2 says
  "not valid"; on a backend that honours \<^verbatim>\<open>lazy\<close>, with a range that admits the
  empty value, \<^verbatim>\<open>next\<close> arrives at document 3 as well.
\<close>

theorem vanished_document_skipped_witness:
  "doc_not_found ((new_ValueRangePostList (gap_db False) 3 ''100'' ''200'')\<lparr>current := 1\<rparr>) 2 \<and>
   next_pl AssertsParanoid ((new_ValueRangePostList (gap_db False) 3 ''100'' ''200'')\<lparr>current := 1\<rparr>) 0
     = Inr ((new_ValueRangePostList (gap_db False) 3 ''100'' ''200'')\<lparr>current := 3\<rparr>) \<and>
   check AssertsParanoid ((new_ValueRangePostList (gap_db False) 3 ''100'' ''200'')\<lparr>current := 1\<rparr>) 2 0
     = Inr ((new_ValueRangePostList (gap_db False) 3 ''100'' ''200'')\<lparr>current := 2\<rparr>, False) \<and>
   doc_not_found ((new_ValueRangePostList (gap_db True) 3 [] ''200'')\<lparr>current := 1\<rparr>) 2 \<and>
   next_pl AssertsParanoid ((new_ValueRangePostList (gap_db True) 3 [] ''200'')\<lparr>current := 1\<rparr>) 0
     = Inr ((new_ValueRangePostList (gap_db True) 3 [] ''200'')\<lparr>current := 3\<rparr>)"
  using vanished_document_skipped
    [of "(new_ValueRangePostList (gap_db False) 3 ''100'' ''200'')\<lparr>current := 1\<rparr>"
        AssertsParanoid 0 2
        "(new_ValueRangePostList (gap_db False) 3 ''100'' ''200'')\<lparr>current := 3\<rparr>" 2]
  by (simp add: cursor_eval gap_db_def gap_docs_def next_loop.simps doc_not_found_def)

subsection \<open>Skipping to a document id\<close>

lemma word_pred:
  fixes c d :: "32 word"
  assumes "c < d"
  shows "d - 1 + 1 = d" and "d - 1 < d" and "c \<le> d - 1"
proof -
  from assms have nz: "d \<noteq> 0" by auto
  show "d - 1 + 1 = d" by simp
  show "d - 1 < d" using measure_unat [OF nz] by (simp add: word_less_nat_alt)
  show "c \<le> d - 1" using assms unat_minus_one [OF nz] by (simp add: word_less_nat_alt word_le_nat_alt)
qed

lemma word_pred_less:
  fixes d k :: "32 word"
  shows "d \<noteq> 0 \<Longrightarrow> d - 1 < k \<longleftrightarrow> d \<le> k"
  using unat_minus_one [of d] unat_gt_0 [of d] by (auto simp: word_less_nat_alt word_le_nat_alt)

lemma next_loop_returns:
  "(\<forall>c. doc_matches s c \<or> doc_passed_over s c) \<Longrightarrow> \<exists>s'. next_loop s = Inr s'"
proof (induction "unat (lastdocid s) - unat (current s)" arbitrary: s rule: less_induct)
  case less
  show ?case
  proof (cases "current s < lastdocid s")
    case False
    then show ?thesis by (simp add: next_loop_stop)
  next
    case True
    note w = word_succ_le [OF True]
    let ?s1 = "s\<lparr>current := current s + 1\<rparr>"
    from less.prems have "doc_matches s (current s + 1) \<or> doc_passed_over s (current s + 1)"
      by blast
    then show ?thesis
    proof
      assume "doc_matches s (current s + 1)"
      then show ?thesis using True by (simp add: next_loop_match)
    next
      assume p: "doc_passed_over s (current s + 1)"
      have dec: "unat (lastdocid ?s1) - unat (current ?s1) < unat (lastdocid s) - unat (current s)"
        using True w(1) unatSuc [of "current s"] by (simp add: add.commute word_less_nat_alt)
      have "\<forall>c. doc_matches ?s1 c \<or> doc_passed_over ?s1 c" using less.prems by simp
      from less.hyps [OF dec this] show ?thesis
        using next_loop_pass [OF True p] by simp
    qed
  qed
qed

lemma doc_matches_read:
  "doc_matches s c \<Longrightarrow> \<exists>v. read_value (s\<lparr>current := c\<rparr>) = Inr v \<and> in_range s v"
  by (cases "read_value (s\<lparr>current := c\<rparr>)")
     (auto simp: doc_matches_def next_try_def in_range_def split: if_splits)

lemma skip_to_noop:
  "db s \<noteq> None \<or> lvl = AssertsOff \<Longrightarrow> did \<le> current s \<Longrightarrow> skip_to lvl s did w = Inr s"
  by (auto simp: skip_to_def Assert_def)

lemma skip_to_forward:
  "db s \<noteq> None \<or> lvl = AssertsOff \<Longrightarrow> current s < did \<Longrightarrow>
     skip_to lvl s did w = next_pl lvl (s\<lparr>current := did - 1\<rparr>) w"
  by (auto simp: skip_to_def Assert_def)

lemma skip_to_found:
  assumes "current s < did" and "loop_found (s\<lparr>current := did - 1\<rparr>) s'"
  shows "s' = s\<lparr>current := current s'\<rparr>" and "did \<le> current s'" and "current s' \<le> lastdocid s"
    and "doc_matches s (current s')" and "\<forall>k. did \<le> k \<and> k < current s' \<longrightarrow> doc_passed_over s k"
proof -
  from assms(1) have nz: "did \<noteq> 0" by auto
  from assms(2) obtain c where c: "s' = s\<lparr>current := c\<rparr>" "did - 1 < c" "c \<le> lastdocid s"
    "doc_matches s c" "\<forall>k. did - 1 < k \<and> k < c \<longrightarrow> doc_passed_over s k"
    unfolding loop_found_def by auto
  from c(1) have cur: "current s' = c" by simp
  show "s' = s\<lparr>current := current s'\<rparr>" using c(1) by simp
  show "did \<le> current s'" using c(2) word_pred_less [OF nz] cur by simp
  show "current s' \<le> lastdocid s" using c(3) cur by simp
  show "doc_matches s (current s')" using c(4) cur by simp
  show "\<forall>k. did \<le> k \<and> k < current s' \<longrightarrow> doc_passed_over s k"
    using c(5) word_pred_less [OF nz] cur by simp
qed


lemma in_range_current [simp]: "in_range (s\<lparr>current := c\<rparr>) v = in_range s v"
  by (simp add: in_range_def)

lemma skip_to_result:
  assumes "\<not> at_end s" and "current s < did" and "skip_to lvl s did w = Inr s'" and "\<not> at_end s'"
  shows "get_docid lvl s' = Inr (current s')" and "did \<le> current s'"
    and "doc_matches s' (current s')" and "\<exists>v. read_value s' = Inr v \<and> in_range s' v"
    and "\<forall>k. did \<le> k \<and> k < current s' \<longrightarrow> \<not> doc_matches s' k"
proof -
  from assms(1) have d: "db s \<noteq> None" by (simp add: at_end_def)
  from assms(2) have nz: "did \<noteq> 0" by auto
  from assms(3) have "next_pl lvl (s\<lparr>current := did - 1\<rparr>) w = Inr s'"
    using skip_to_forward [of s lvl did w] d assms(2) by simp
  from next_pl_Inr [OF this] have f: "loop_found (s\<lparr>current := did - 1\<rparr>) s'"
    using assms(4) by (auto simp: loop_ended_def at_end_def)
  note r = skip_to_found [OF assms(2) f]
  from r(2) nz have c0: "current s' \<noteq> 0" by auto
  have "db (s\<lparr>current := current s'\<rparr>) = db s" by simp
  with r(1) d have d': "db s' \<noteq> None" by simp
  show "get_docid lvl s' = Inr (current s')" using c0 d' by (simp add: get_docid_def Assert_def)
  show "did \<le> current s'" by (rule r(2))
  have m: "doc_matches s' k = doc_matches s k" for k
    using doc_fields(1) [where s = s and a = "current s'" and c = k] r(1) by simp
  show "doc_matches s' (current s')" using r(4) m by simp
  from doc_matches_read [OF r(4)] obtain v where "read_value (s\<lparr>current := current s'\<rparr>) = Inr v" "in_range s v"
    by blast
  then have "read_value s' = Inr v \<and> in_range s' v"
    using r(1) in_range_current [where s = s and c = "current s'" and v = v] by simp
  then show "\<exists>v. read_value s' = Inr v \<and> in_range s' v" by blast
  show "\<forall>k. did \<le> k \<and> k < current s' \<longrightarrow> \<not> doc_matches s' k"
    using r(5) m passed_over_not_matches by blast
qed

lemma skip_to_returns:
  assumes "\<not> at_end s" and "current s < did" and "lvl = AssertsParanoid \<longrightarrow> lastdocid_ok s"
    and "\<forall>c. doc_matches s c \<or> doc_passed_over s c"
  shows "\<exists>s'. skip_to lvl s did w = Inr s'"
proof -
  from assms(1) have d: "db s \<noteq> None" by (simp add: at_end_def)
  have "\<forall>c. doc_matches (s\<lparr>current := did - 1\<rparr>) c \<or> doc_passed_over (s\<lparr>current := did - 1\<rparr>) c"
    using assms(4) by simp
  from next_loop_returns [OF this] obtain s' where "next_loop (s\<lparr>current := did - 1\<rparr>) = Inr s'"
    by blast
  then have "next_pl lvl (s\<lparr>current := did - 1\<rparr>) w = Inr s'"
    using d assms(3) by (simp add: next_pl_def Assert_def AssertParanoid_def)
  then show ?thesis using skip_to_forward [of s lvl did w] d assms(2) by simp
qed

text \<open>
  C4. On a cursor that is not terminated, \<open>skip_to\<close> to a document id at or before
  \<open>current\<close> returns the cursor unchanged. To a later id \<open>did\<close>, when it returns,
  the cursor is terminated, or it is at a document id not below \<open>did\<close> which
  \<open>get_docid\<close> reports, whose value read through the lazy handle lies in the range
  and which matches as \<^verbatim>\<open>next\<close> tests it, no id from \<open>did\<close> up to it matching. It
  does return whenever the backend throws nothing but "not found" (and the paranoid
  assertion, where active, holds).
\<close>

theorem skip_to_postcondition:
  "\<not> at_end s \<Longrightarrow>
   (did \<le> current s \<longrightarrow> skip_to lvl s did w = Inr s) \<and>
   (current s < did \<and> skip_to lvl s did w = Inr s' \<longrightarrow>
      at_end s' \<or>
      (get_docid lvl s' = Inr (current s') \<and> did \<le> current s' \<and> doc_matches s' (current s') \<and>
       (\<exists>v. read_value s' = Inr v \<and> in_range s' v) \<and>
       (\<forall>k. did \<le> k \<and> k < current s' \<longrightarrow> \<not> doc_matches s' k))) \<and>
   (current s < did \<and> (lvl = AssertsParanoid \<longrightarrow> lastdocid_ok s) \<and>
    (\<forall>c. doc_matches s c \<or> doc_passed_over s c) \<longrightarrow>
      (\<exists>s'. skip_to lvl s did w = Inr s'))"
proof (intro conjI impI)
  assume "\<not> at_end s" and "did \<le> current s"
  then show "skip_to lvl s did w = Inr s"
    using skip_to_noop [of s lvl did w] by (simp add: at_end_def)
next
  assume a: "\<not> at_end s" and b: "current s < did \<and> skip_to lvl s did w = Inr s'"
  show "at_end s' \<or>
      (get_docid lvl s' = Inr (current s') \<and> did \<le> current s' \<and> doc_matches s' (current s') \<and>
       (\<exists>v. read_value s' = Inr v \<and> in_range s' v) \<and>
       (\<forall>k. did \<le> k \<and> k < current s' \<longrightarrow> \<not> doc_matches s' k))"
  proof (cases "at_end s'")
    case True
    then show ?thesis by simp
  next
    case False
    from b have b1: "current s < did" and b2: "skip_to lvl s did w = Inr s'" by simp_all
    note r = skip_to_result [OF a b1 b2 False]
    show ?thesis using r(1) r(2) r(3) r(4) r(5) by blast
  qed
next
  assume a: "\<not> at_end s"
    and b: "current s < did \<and> (lvl = AssertsParanoid \<longrightarrow> lastdocid_ok s) \<and>
      (\<forall>c. doc_matches s c \<or> doc_passed_over s c)"
  then show "\<exists>s'. skip_to lvl s did w = Inr s'"
    using skip_to_returns [of s did lvl w] by blast
qed

text \<open>
  On the five-document scenario: skipping to document 1 from the fresh cursor arrives
  at document 2, and skipping to document 1 from there changes nothing.
\<close>

theorem skip_to_postcondition_witness:
  "\<not> at_end (new_ValueRangePostList five_db 3 ''100'' ''200'') \<and>
   lastdocid_ok (new_ValueRangePostList five_db 3 ''100'' ''200'') \<and>
   (\<forall>c. doc_matches (new_ValueRangePostList five_db 3 ''100'' ''200'') c \<or>
        doc_passed_over (new_ValueRangePostList five_db 3 ''100'' ''200'') c) \<and>
   skip_to AssertsParanoid (new_ValueRangePostList five_db 3 ''100'' ''200'') 1 0
     = Inr ((new_ValueRangePostList five_db 3 ''100'' ''200'')\<lparr>current := 2\<rparr>) \<and>
   get_docid AssertsParanoid ((new_ValueRangePostList five_db 3 ''100'' ''200'')\<lparr>current := 2\<rparr>) = Inr 2 \<and>
   doc_matches ((new_ValueRangePostList five_db 3 ''100'' ''200'')\<lparr>current := 2\<rparr>) 2 \<and>
   skip_to AssertsParanoid ((new_ValueRangePostList five_db 3 ''100'' ''200'')\<lparr>current := 2\<rparr>) 1 0
     = Inr ((new_ValueRangePostList five_db 3 ''100'' ''200'')\<lparr>current := 2\<rparr>)"
  using skip_to_postcondition
    [of "new_ValueRangePostList five_db 3 ''100'' ''200''" 1 AssertsParanoid 0
        "(new_ValueRangePostList five_db 3 ''100'' ''200'')\<lparr>current := 2\<rparr>"]
  by (simp add: cursor_eval five_db_def five_docs_def next_loop.simps doc_matches_def
      doc_passed_over_def doc_not_found_def)

subsection \<open>check against skip_to\<close>

lemma check_asserted:
  "\<not> (db s \<noteq> None \<or> lvl = AssertsOff) \<Longrightarrow> check lvl s did w = Inl AssertionError"
  by (simp add: check_def Assert_def)

lemma check_behind:
  "db s \<noteq> None \<or> lvl = AssertsOff \<Longrightarrow> did \<le> current s \<Longrightarrow> check lvl s did w = Inr (s, True)"
  by (auto simp: check_def Assert_def)

lemma check_paranoid:
  "db s \<noteq> None \<or> lvl = AssertsOff \<Longrightarrow> \<not> did \<le> current s \<Longrightarrow>
     \<not> (lvl = AssertsParanoid \<longrightarrow> lastdocid_ok s) \<Longrightarrow> check lvl s did w = Inl AssertionError"
  by (auto simp: check_def Assert_def AssertParanoid_def)

lemma check_beyond:
  "db s \<noteq> None \<or> lvl = AssertsOff \<Longrightarrow> \<not> did \<le> current s \<Longrightarrow>
     lvl = AssertsParanoid \<longrightarrow> lastdocid_ok s \<Longrightarrow> lastdocid s < did \<Longrightarrow>
     check lvl s did w = Inr (s\<lparr>db := None\<rparr>, True)"
  by (auto simp: check_def Assert_def AssertParanoid_def)

lemma check_probe:
  "db s \<noteq> None \<or> lvl = AssertsOff \<Longrightarrow> \<not> did \<le> current s \<Longrightarrow>
     lvl = AssertsParanoid \<longrightarrow> lastdocid_ok s \<Longrightarrow> \<not> lastdocid s < did \<Longrightarrow>
     check lvl s did w =
       (case read_value (s\<lparr>current := did\<rparr>) of
          Inr v \<Rightarrow> Inr (s\<lparr>current := did\<rparr>, in_range s v)
        | Inl e \<Rightarrow> if e = DocNotFoundError then Inr (s\<lparr>current := did\<rparr>, False) else Inl e)"
  by (auto simp: check_def Assert_def AssertParanoid_def split: sum.split)

lemma check_valid_cases:
  assumes "check lvl s did w = Inr (s1, True)"
  shows "(db s \<noteq> None \<or> lvl = AssertsOff) \<and>
         ((did \<le> current s \<and> s1 = s) \<or>
          (current s < did \<and> (lvl = AssertsParanoid \<longrightarrow> lastdocid_ok s) \<and>
            ((lastdocid s < did \<and> s1 = s\<lparr>db := None\<rparr>) \<or>
             (did \<le> lastdocid s \<and> s1 = s\<lparr>current := did\<rparr> \<and>
              (\<exists>v. read_value (s\<lparr>current := did\<rparr>) = Inr v \<and> in_range s v)))))"
proof -
  have a: "db s \<noteq> None \<or> lvl = AssertsOff"
  proof (rule ccontr)
    assume "\<not> (db s \<noteq> None \<or> lvl = AssertsOff)"
    from check_asserted [OF this] assms show False by simp
  qed
  show ?thesis
  proof (cases "did \<le> current s")
    case True
    with assms a show ?thesis by (simp add: check_behind)
  next
    case False
    then have lt: "current s < did" by simp
    have p: "lvl = AssertsParanoid \<longrightarrow> lastdocid_ok s"
    proof (rule ccontr)
      assume "\<not> (lvl = AssertsParanoid \<longrightarrow> lastdocid_ok s)"
      from check_paranoid [OF a False this] assms show False by simp
    qed
    show ?thesis
    proof (cases "lastdocid s < did")
      case True
      from assms check_beyond [OF a False p True, of w] have "s1 = s\<lparr>db := None\<rparr>"
        by simp
      with a lt p True show ?thesis by blast
    next
      case nl: False
      then have le: "did \<le> lastdocid s" by simp
      from assms check_probe [OF a False p nl, of w]
      have "s1 = s\<lparr>current := did\<rparr> \<and> (\<exists>v. read_value (s\<lparr>current := did\<rparr>) = Inr v \<and> in_range s v)"
        by (cases "read_value (s\<lparr>current := did\<rparr>)") (auto split: if_splits)
      with a lt p le show ?thesis by blast
    qed
  qed
qed

lemma read_value_db: "read_value s = Inr v \<Longrightarrow> db s \<noteq> None"
  by (cases "db s") (simp_all add: read_value_def)

lemma doc_matches_intro:
  assumes "read_value (s\<lparr>current := c\<rparr>) = Inr v" and "in_range s v"
    and "v = [] \<longrightarrow> doc_exists s c"
  shows "doc_matches s c"
proof (cases "v = []")
  case False
  with assms(1,2) show ?thesis by (simp add: doc_matches_def next_try_def)
next
  case True
  with assms(3) obtain d where d: "db s = Some d" and "\<exists>doc. open_document d c False = Inr doc"
    by (cases "db s"; cases "open_document (the (db s)) c False") (auto simp: doc_exists_def)
  with assms(1,2) True show ?thesis by (auto simp: doc_matches_def next_try_def)
qed

lemma next_pl_passes:
  "db s \<noteq> None \<or> lvl = AssertsOff \<Longrightarrow> lvl = AssertsParanoid \<longrightarrow> lastdocid_ok s \<Longrightarrow>
     next_pl lvl s w = next_loop s"
  by (auto simp: next_pl_def Assert_def AssertParanoid_def)

text \<open>
  C5, as amended. Whenever \<open>check\<close> leaves \<^verbatim>\<open>valid\<close> true, and the document entered
  exists (opens with \<^verbatim>\<open>lazy = false\<close>) in case its value was read and is empty,
  \<open>skip_to\<close> from the same cursor with the same arguments returns and agrees: both
  cursors are terminated, or both are the same cursor at the same document.
\<close>

theorem check_agrees_with_skip_to:
  assumes "check lvl s did w = Inr (s1, True)"
    and "current s < did \<and> did \<le> lastdocid s \<and> read_value (s\<lparr>current := did\<rparr>) = Inr [] \<longrightarrow>
           doc_exists s did"
  shows "\<exists>s2. skip_to lvl s did w = Inr s2 \<and> at_end s2 = at_end s1 \<and> (\<not> at_end s1 \<longrightarrow> s2 = s1)"
proof -
  note c = check_valid_cases [OF assms(1)]
  from c have a: "db s \<noteq> None \<or> lvl = AssertsOff" by blast
  show ?thesis
  proof (cases "did \<le> current s")
    case True
    with c have "s1 = s" by auto
    then show ?thesis using skip_to_noop [OF a True] by simp
  next
    case False
    then have lt: "current s < did" by simp
    with c have p: "lvl = AssertsParanoid \<longrightarrow> lastdocid_ok s" by auto
    let ?s' = "s\<lparr>current := did - 1\<rparr>"
    have "skip_to lvl s did w = next_pl lvl ?s' w"
      by (rule skip_to_forward [OF a lt])
    also have "\<dots> = next_loop ?s'"
      using a p by (simp add: next_pl_passes)
    finally have sk: "skip_to lvl s did w = next_loop ?s'" .
    show ?thesis
    proof (cases "lastdocid s < did")
      case True
      with c False have s1: "s1 = s\<lparr>db := None\<rparr>" by auto
      from True have "lastdocid s \<le> did - 1" by (rule word_pred(3))
      then have "\<not> current ?s' < lastdocid ?s'" by simp
      from next_loop_stop [OF this] have "skip_to lvl s did w = Inr (?s'\<lparr>db := None\<rparr>)"
        using sk by simp
      then show ?thesis using s1 by (simp add: at_end_def)
    next
      case nl: False
      with c False obtain v where s1: "s1 = s\<lparr>current := did\<rparr>"
        and v: "read_value (s\<lparr>current := did\<rparr>) = Inr v" "in_range s v" by auto
      from nl have le: "did \<le> lastdocid s" by simp
      have "v = [] \<longrightarrow> doc_exists s did" using assms(2) lt le v(1) by blast
      from doc_matches_intro [OF v this] have m: "doc_matches s did" .
      note w = word_pred [OF lt]
      have "current ?s' < lastdocid ?s'" using w(2) le by simp
      moreover have "doc_matches ?s' (current ?s' + 1)" using m w(1) by simp
      ultimately have "next_loop ?s' = Inr (?s'\<lparr>current := current ?s' + 1\<rparr>)"
        by (rule next_loop_match)
      then have "skip_to lvl s did w = Inr (s\<lparr>current := did\<rparr>)"
        using sk w(1) by simp
      then show ?thesis using s1 by simp
    qed
  qed
qed

text \<open>
  On the five-document scenario, \<open>check\<close> and \<open>skip_to\<close> of document 2, whose value
  is "150", and, with a range that admits the empty value, of document 5, whose value
  is empty and which exists.
\<close>

theorem check_agrees_with_skip_to_witness:
  "check AssertsParanoid (new_ValueRangePostList five_db 3 ''100'' ''200'') 2 0
     = Inr ((new_ValueRangePostList five_db 3 ''100'' ''200'')\<lparr>current := 2\<rparr>, True) \<and>
   read_value ((new_ValueRangePostList five_db 3 ''100'' ''200'')\<lparr>current := 2\<rparr>) = Inr ''150'' \<and>
   skip_to AssertsParanoid (new_ValueRangePostList five_db 3 ''100'' ''200'') 2 0
     = Inr ((new_ValueRangePostList five_db 3 ''100'' ''200'')\<lparr>current := 2\<rparr>) \<and>
   check AssertsParanoid (new_ValueRangePostList five_db 3 [] ''200'') 5 0
     = Inr ((new_ValueRangePostList five_db 3 [] ''200'')\<lparr>current := 5\<rparr>, True) \<and>
   read_value ((new_ValueRangePostList five_db 3 [] ''200'')\<lparr>current := 5\<rparr>) = Inr [] \<and>
   doc_exists (new_ValueRangePostList five_db 3 [] ''200'') 5 \<and>
   skip_to AssertsParanoid (new_ValueRangePostList five_db 3 [] ''200'') 5 0
     = Inr ((new_ValueRangePostList five_db 3 [] ''200'')\<lparr>current := 5\<rparr>)"
  using check_agrees_with_skip_to
    [of AssertsParanoid "new_ValueRangePostList five_db 3 ''100'' ''200''" 2 0
        "(new_ValueRangePostList five_db 3 ''100'' ''200'')\<lparr>current := 2\<rparr>"]
    check_agrees_with_skip_to
    [of AssertsParanoid "new_ValueRangePostList five_db 3 [] ''200''" 5 0
        "(new_ValueRangePostList five_db 3 [] ''200'')\<lparr>current := 5\<rparr>"]
  by (simp add: cursor_eval five_db_def five_docs_def next_loop.simps doc_exists_def)

text \<open>
  C5 as stated fails where the range admits the empty value and the backend honours
  \<^verbatim>\<open>lazy\<close>: for the deleted document 2, \<open>check\<close> reads an empty value through the
  lazy handle and reports a valid position at 2, while \<open>skip_to\<close> opens the document
  with \<^verbatim>\<open>lazy = false\<close>, finds it gone and moves on to document 3.
\<close>

theorem check_agrees_with_skip_to_counterexample:
  "check AssertsOn (new_ValueRangePostList (gap_db True) 3 [] ''200'') 2 0
     = Inr ((new_ValueRangePostList (gap_db True) 3 [] ''200'')\<lparr>current := 2\<rparr>, True) \<and>
   skip_to AssertsOn (new_ValueRangePostList (gap_db True) 3 [] ''200'') 2 0
     = Inr ((new_ValueRangePostList (gap_db True) 3 [] ''200'')\<lparr>current := 3\<rparr>) \<and>
   \<not> doc_exists (new_ValueRangePostList (gap_db True) 3 [] ''200'') 2"
  by (simp add: cursor_eval gap_db_def gap_docs_def next_loop.simps doc_exists_def)

subsection \<open>The terminated cursor\<close>

lemma db_None_update: "db s = None \<Longrightarrow> s\<lparr>db := None\<rparr> = s"
  by (cases s) simp

lemma next_pl_asserted:
  "db s = None \<Longrightarrow> lvl \<noteq> AssertsOff \<Longrightarrow> next_pl lvl s w = Inl AssertionError"
  by (simp add: next_pl_def Assert_def)

lemma skip_to_asserted:
  "db s = None \<Longrightarrow> lvl \<noteq> AssertsOff \<Longrightarrow> skip_to lvl s did w = Inl AssertionError"
  by (simp add: skip_to_def Assert_def)

lemma next_pl_off_at_last:
  assumes "db s = None" and "lastdocid s \<le> current s"
  shows "next_pl AssertsOff s w = Inr s"
proof -
  from assms(2) have "\<not> current s < lastdocid s" by simp
  from next_loop_stop [OF this] have "next_loop s = Inr s"
    using db_None_update [OF assms(1)] by simp
  then show ?thesis by (simp add: next_pl_passes)
qed

lemma skip_to_off_at_last:
  assumes "db s = None" and "lastdocid s \<le> current s"
  shows "skip_to AssertsOff s did w = Inr (if did \<le> current s then s else s\<lparr>current := did - 1\<rparr>)"
proof (cases "did \<le> current s")
  case True
  then show ?thesis using skip_to_noop [of s AssertsOff did w] by simp
next
  case False
  then have lt: "current s < did" by simp
  let ?s' = "s\<lparr>current := did - 1\<rparr>"
  have d: "db ?s' = None" using assms(1) by simp
  have "lastdocid s \<le> did - 1" using word_pred(3) [OF lt] assms(2) by simp
  then have "lastdocid ?s' \<le> current ?s'" by simp
  from next_pl_off_at_last [OF d this] have "next_pl AssertsOff ?s' w = Inr ?s'" .
  then show ?thesis using skip_to_forward [of s AssertsOff did w] lt False by simp
qed

lemma next_pl_ends_at_last:
  assumes "next_pl lvl s0 w = Inr s" and "at_end s"
  shows "lastdocid s \<le> current s"
proof -
  from next_pl_Inr [OF assms(1)] show ?thesis
  proof
    assume f: "loop_found s0 s"
    then have "db s = db s0" by (auto simp: loop_found_def)
    with assms(2) have "db s0 = None" by (simp add: at_end_def)
    moreover from f have "\<exists>c. doc_matches s0 c" by (auto simp: loop_found_def)
    ultimately show ?thesis using doc_matches_db by blast
  next
    assume "loop_ended s0 s"
    then have "s = s0\<lparr>current := (if current s0 < lastdocid s0 then lastdocid s0 else current s0), db := None\<rparr>"
      by (simp add: loop_ended_def)
    then have "lastdocid s = lastdocid s0" and "current s = (if current s0 < lastdocid s0 then lastdocid s0 else current s0)"
      by simp_all
    then show ?thesis by auto
  qed
qed

lemma skip_to_ends_at_last:
  assumes "\<not> at_end s0" and "skip_to lvl s0 did w = Inr s" and "at_end s"
  shows "lastdocid s \<le> current s"
proof (cases "did \<le> current s0")
  case True
  from assms(1) have "db s0 \<noteq> None" by (simp add: at_end_def)
  from skip_to_noop [of s0 lvl did w] this True assms(2) have "s = s0" by simp
  with assms(1,3) show ?thesis by simp
next
  case False
  from assms(1) have "db s0 \<noteq> None" by (simp add: at_end_def)
  from skip_to_forward [of s0 lvl did w] this False assms(2)
  have "next_pl lvl (s0\<lparr>current := did - 1\<rparr>) w = Inr s" by simp
  then show ?thesis using assms(3) by (rule next_pl_ends_at_last)
qed

text \<open>
  C2, as amended. \<open>at_end\<close> reads the cursor and changes nothing, so asking again gives
  the same answer. Advancing a terminated cursor is guarded by \<^verbatim>\<open>Assert(db)\<close>: in a
  build with assertions \<open>next_pl\<close> and \<open>skip_to\<close> end in the assertion failure. With
  assertions compiled out, on a terminated cursor whose \<open>current\<close> has reached
  \<open>lastdocid\<close>, \<open>next_pl\<close> returns the cursor unchanged and \<open>skip_to\<close> returns it
  terminated (unchanged for a target at or before \<open>current\<close>, otherwise with only
  \<open>current\<close> moved to just before the target). A cursor that \<open>next_pl\<close> or
  \<open>skip_to\<close> left terminated has \<open>current\<close> at or past \<open>lastdocid\<close>.
\<close>

theorem terminated_cursor:
  "at_end s \<Longrightarrow>
     (lvl \<noteq> AssertsOff \<longrightarrow>
        next_pl lvl s w = Inl AssertionError \<and> skip_to lvl s did w = Inl AssertionError) \<and>
     (lvl = AssertsOff \<and> lastdocid s \<le> current s \<longrightarrow>
        next_pl lvl s w = Inr s \<and>
        skip_to lvl s did w = Inr (if did \<le> current s then s else s\<lparr>current := did - 1\<rparr>) \<and>
        at_end (if did \<le> current s then s else s\<lparr>current := did - 1\<rparr>)) \<and>
     (next_pl lvl0 s0 w0 = Inr s \<longrightarrow> lastdocid s \<le> current s) \<and>
     (\<not> at_end s0 \<and> skip_to lvl0 s0 did0 w0 = Inr s \<longrightarrow> lastdocid s \<le> current s)"
proof (intro conjI impI)
  assume a: "at_end s"
  then have d: "db s = None" by (simp add: at_end_def)
  {
    assume "lvl \<noteq> AssertsOff"
    then show "next_pl lvl s w = Inl AssertionError" and "skip_to lvl s did w = Inl AssertionError"
      using d by (simp_all add: next_pl_asserted skip_to_asserted)
  }
  {
    assume "lvl = AssertsOff \<and> lastdocid s \<le> current s"
    then show "next_pl lvl s w = Inr s"
      and "skip_to lvl s did w = Inr (if did \<le> current s then s else s\<lparr>current := did - 1\<rparr>)"
      using d by (simp_all add: next_pl_off_at_last skip_to_off_at_last)
    show "at_end (if did \<le> current s then s else s\<lparr>current := did - 1\<rparr>)"
      using d by (simp add: at_end_def)
  }
  {
    assume "next_pl lvl0 s0 w0 = Inr s"
    then show "lastdocid s \<le> current s" using a by (rule next_pl_ends_at_last)
  }
  {
    assume "\<not> at_end s0 \<and> skip_to lvl0 s0 did0 w0 = Inr s"
    then show "lastdocid s \<le> current s"
      using skip_to_ends_at_last [of s0 lvl0 did0 w0 s] a by blast
  }
qed

text \<open>
  The drained cursor of the five-document scenario, in a build without assertions.
\<close>

theorem terminated_cursor_witness:
  "at_end five_done \<and> next_pl AssertsOff five_done 0 = Inr five_done \<and>
   skip_to AssertsOff five_done 4 0 = Inr five_done \<and>
   skip_to AssertsOff five_done 9 0 = Inr (five_done\<lparr>current := 8\<rparr>) \<and>
   at_end (five_done\<lparr>current := 8\<rparr>)"
  using terminated_cursor [of five_done AssertsOff 0 4] terminated_cursor [of five_done AssertsOff 0 9]
  by (simp add: five_done_def at_end_def)

text \<open>
  C2 as stated fails. With assertions, \<^verbatim>\<open>next\<close> and \<^verbatim>\<open>skip_to\<close> on the drained
  cursor throw. Without assertions, a cursor that \<open>check\<close> terminated (target past
  the last document, \<open>current\<close> still 0) enters the loop of \<^verbatim>\<open>next\<close> and dereferences
  the null \<^verbatim>\<open>db\<close>.
\<close>

theorem terminated_cursor_counterexample:
  "at_end five_done \<and>
   next_pl AssertsOn five_done 0 = Inl AssertionError \<and>
   skip_to AssertsOn five_done 9 0 = Inl AssertionError \<and>
   check AssertsOff (new_ValueRangePostList five_db 3 ''100'' ''200'') 9 0
     = Inr ((new_ValueRangePostList five_db 3 ''100'' ''200'')\<lparr>db := None\<rparr>, True) \<and>
   at_end ((new_ValueRangePostList five_db 3 ''100'' ''200'')\<lparr>db := None\<rparr>) \<and>
   next_pl AssertsOff ((new_ValueRangePostList five_db 3 ''100'' ''200'')\<lparr>db := None\<rparr>) 0
     = Inl NullPointerDereference"
  by (simp add: cursor_eval five_db_def five_docs_def five_done_def next_loop.simps)

subsection \<open>Term frequency bounds\<close>

lemma next_pl_frame:
  assumes "next_pl lvl s w = Inr s'"
  shows "db_size s' = db_size s \<and> (db s' = db s \<or> db s' = None)"
  using next_pl_Inr [OF assms] by (auto simp: loop_found_def loop_ended_def)

lemma skip_to_frame:
  assumes "skip_to lvl s did w = Inr s'"
  shows "db_size s' = db_size s \<and> (db s' = db s \<or> db s' = None)"
proof (cases "did \<le> current s")
  case True
  with assms have "s' = s" by (auto simp: skip_to_def split: sum.splits)
  then show ?thesis by simp
next
  case False
  with assms have "next_pl lvl (s\<lparr>current := did - 1\<rparr>) w = Inr s'"
    by (auto simp: skip_to_def split: sum.splits)
  from next_pl_frame [OF this] show ?thesis by simp
qed

lemma check_cases:
  assumes "check lvl s did w = Inr (s', v)"
  shows "s' = s \<or> s' = s\<lparr>db := None\<rparr> \<or> s' = s\<lparr>current := did\<rparr>"
proof -
  have a: "db s \<noteq> None \<or> lvl = AssertsOff"
  proof (rule ccontr)
    assume "\<not> (db s \<noteq> None \<or> lvl = AssertsOff)"
    from check_asserted [OF this] assms show False by simp
  qed
  show ?thesis
  proof (cases "did \<le> current s")
    case True
    with assms a show ?thesis by (simp add: check_behind)
  next
    case False
    have p: "lvl = AssertsParanoid \<longrightarrow> lastdocid_ok s"
    proof (rule ccontr)
      assume "\<not> (lvl = AssertsParanoid \<longrightarrow> lastdocid_ok s)"
      from check_paranoid [OF a False this] assms show False by simp
    qed
    show ?thesis
    proof (cases "lastdocid s < did")
      case True
      from assms check_beyond [OF a False p True, of w] show ?thesis by simp
    next
      case nl: False
      from assms check_probe [OF a False p nl, of w] show ?thesis
        by (cases "read_value (s\<lparr>current := did\<rparr>)") (auto split: if_splits)
    qed
  qed
qed

lemma check_frame:
  assumes "check lvl s did w = Inr (s', v)"
  shows "db_size s' = db_size s \<and> (db s' = db s \<or> db s' = None)"
  using check_cases [OF assms] by auto

lemma advance_by_frame:
  assumes "advance_by lvl s a = Inr s'"
  shows "db_size s' = db_size s \<and> (db s' = db s \<or> db s' = None)"
proof (cases a)
  case (Next w)
  with assms show ?thesis using next_pl_frame by simp
next
  case (SkipTo did w)
  with assms show ?thesis using skip_to_frame by simp
next
  case (Check did w)
  with assms obtain v where "check lvl s did w = Inr (s', v)"
    by (auto split: sum.splits)
  then show ?thesis by (rule check_frame)
qed

lemma advance_all_frame:
  "advance_all lvl s ops = Inr s' \<Longrightarrow> db_size s' = db_size s \<and> (db s' = db s \<or> db s' = None)"
proof (induction ops arbitrary: s)
  case Nil
  then show ?case by simp
next
  case (Cons a ops)
  then obtain s1 where a: "advance_by lvl s a = Inr s1" and r: "advance_all lvl s1 ops = Inr s'"
    by (auto split: sum.splits)
  from advance_by_frame [OF a] Cons.IH [OF r] show ?case by auto
qed

lemma db_size_ok_frame:
  "db_size_ok s \<Longrightarrow> db_size s' = db_size s \<and> (db s' = db s \<or> db s' = None) \<Longrightarrow> db_size_ok s'"
  by (auto simp: db_size_ok_def split: option.splits)

lemma db_size_ok_new: "db_size_ok (new_ValueRangePostList d slot b e)"
  by (simp add: db_size_ok_def new_ValueRangePostList_def)

lemma termfreq_returns:
  "db_size_ok s \<Longrightarrow> get_termfreq_est lvl s = Inr (db_size s div 2) \<and> get_termfreq_max lvl s = Inr (db_size s)"
  by (simp add: get_termfreq_est_def get_termfreq_max_def AssertParanoid_def)

lemma word_half_le: "(x :: 32 word) div 2 \<le> x"
  by (simp add: word_le_nat_alt unat_div)

text \<open>
  C8. Take any cursor state \<open>s\<close> reached from a new cursor by advancing calls, and any
  state \<open>s'\<close> reached from \<open>s\<close> by further ones. In both, \<open>get_termfreq_est\<close> and
  \<open>get_termfreq_max\<close> return (their paranoid assertions hold), the minimum is at most
  the estimate and the estimate at most the maximum, and none of the three is larger
  in \<open>s'\<close> than in \<open>s\<close>: no method assigns \<open>db_size\<close>, so they stay as they were.
\<close>

theorem termfreq_bounds:
  assumes "advance_all lvl (new_ValueRangePostList d slot b e) ops = Inr s"
    and "advance_all lvl s ops' = Inr s'"
  shows "get_termfreq_est lvl s = Inr (db_size s div 2) \<and>
         get_termfreq_max lvl s = Inr (db_size s) \<and>
         get_termfreq_est lvl s' = Inr (db_size s' div 2) \<and>
         get_termfreq_max lvl s' = Inr (db_size s') \<and>
         get_termfreq_min s \<le> db_size s div 2 \<and> db_size s div 2 \<le> db_size s \<and>
         get_termfreq_min s' \<le> get_termfreq_min s \<and>
         db_size s' div 2 \<le> db_size s div 2 \<and> db_size s' \<le> db_size s"
proof -
  have ok: "db_size_ok s"
    using db_size_ok_frame [OF db_size_ok_new advance_all_frame [OF assms(1)]] .
  note f = advance_all_frame [OF assms(2)]
  have ok': "db_size_ok s'"
    using db_size_ok_frame [OF ok f] .
  from f have eq: "db_size s' = db_size s" by simp
  show ?thesis
    using termfreq_returns [OF ok, of lvl] termfreq_returns [OF ok', of lvl] eq word_half_le [of "db_size s"]
    by (simp add: get_termfreq_min_def)
qed

text \<open>
  The five-document cursor after \<^verbatim>\<open>next\<close> and \<^verbatim>\<open>check\<close>, and then after a \<^verbatim>\<open>skip_to\<close>
  past the end: 0, 2 and 5 both times.
\<close>

theorem termfreq_bounds_witness:
  "advance_all AssertsParanoid (new_ValueRangePostList five_db 3 ''100'' ''200'') [Next 0, Check 3 0]
     = Inr ((new_ValueRangePostList five_db 3 ''100'' ''200'')\<lparr>current := 3\<rparr>) \<and>
   advance_all AssertsParanoid ((new_ValueRangePostList five_db 3 ''100'' ''200'')\<lparr>current := 3\<rparr>) [SkipTo 9 0]
     = Inr ((new_ValueRangePostList five_db 3 ''100'' ''200'')\<lparr>current := 8, db := None\<rparr>) \<and>
   get_termfreq_min ((new_ValueRangePostList five_db 3 ''100'' ''200'')\<lparr>current := 3\<rparr>) = 0 \<and>
   get_termfreq_est AssertsParanoid ((new_ValueRangePostList five_db 3 ''100'' ''200'')\<lparr>current := 3\<rparr>) = Inr 2 \<and>
   get_termfreq_max AssertsParanoid ((new_ValueRangePostList five_db 3 ''100'' ''200'')\<lparr>current := 3\<rparr>) = Inr 5 \<and>
   get_termfreq_est AssertsParanoid
     ((new_ValueRangePostList five_db 3 ''100'' ''200'')\<lparr>current := 8, db := None\<rparr>) = Inr 2 \<and>
   get_termfreq_max AssertsParanoid
     ((new_ValueRangePostList five_db 3 ''100'' ''200'')\<lparr>current := 8, db := None\<rparr>) = Inr 5"
  using termfreq_bounds
    [of AssertsParanoid five_db 3 "''100''" "''200''" "[Next 0, Check 3 0]"
        "(new_ValueRangePostList five_db 3 ''100'' ''200'')\<lparr>current := 3\<rparr>" "[SkipTo 9 0]"
        "(new_ValueRangePostList five_db 3 ''100'' ''200'')\<lparr>current := 8, db := None\<rparr>"]
  by (simp add: cursor_eval five_db_def five_docs_def next_loop.simps get_termfreq_min_def)

end
